theory Spec2Isabelle
  imports Main "HOL-Library.Multiset"
begin

section \<open>Python values and exceptions\<close>

text \<open>
  A Python \<open>str\<close> is modelled as a \<open>string\<close>; a \<open>char\<close> stands for a code point
  below 256. Exceptions are values: every function of the program that can raise returns
  \<open>py_exception + 'a\<close>, with \<open>Inl\<close> for the exception. All constructors stand for
  subclasses of Python's \<open>Exception\<close>.
\<close>

datatype py_exception =
    JSONDecodeError
  | ValueError
  | IndexError
  | AttributeError
  | RecursionError
  | OtherException string

text \<open>Values produced by the JSON decoder. Numbers stay symbolic (their literal).\<close>

datatype json =
    JNull
  | JBool bool
  | JNum string
  | JStr string
  | JArr "json list"
  | JObj "(string \<times> json) list"

subsection \<open>String operations of the Python library used by the program\<close>

definition newline :: char where
  "newline = CHR 0x0A"

definition backslash :: char where
  "backslash = CHR 0x5C"

text \<open>\<open>str.isspace\<close> on code points below 256.\<close>

definition is_space :: "char \<Rightarrow> bool" where
  "is_space c =
     (let n = (of_char c :: nat)
      in (9 \<le> n \<and> n \<le> 13) \<or> (28 \<le> n \<and> n \<le> 32) \<or> n = 133 \<or> n = 160)"

text \<open>\<open>s.strip()\<close>: drop leading and trailing whitespace.\<close>

definition strip :: "string \<Rightarrow> string" where
  "strip s = rev (dropWhile is_space (rev (dropWhile is_space s)))"

text \<open>\<open>s.split(sep)\<close> for a one-character separator: never the empty list.\<close>

fun split_on :: "char \<Rightarrow> string \<Rightarrow> string list" where
  "split_on sep [] = [[]]"
| "split_on sep (c # cs) =
     (if c = sep then [] # split_on sep cs
      else (c # hd (split_on sep cs)) # tl (split_on sep cs))"

text \<open>\<open>sep.join(xs)\<close>.\<close>

fun join :: "string \<Rightarrow> string list \<Rightarrow> string" where
  "join sep [] = []"
| "join sep [x] = x"
| "join sep (x # y # ys) = x @ sep @ join sep (y # ys)"

text \<open>
  \<open>s.replace(old, new)\<close>: the occurrences of \<open>old\<close> are found from the left and do
  not overlap. With an empty \<open>old\<close>, Python puts \<open>new\<close> before every character and
  at the end.
\<close>

function replace :: "string \<Rightarrow> string \<Rightarrow> string \<Rightarrow> string" where
  "replace old new s =
     (if old = [] then new @ concat (map (\<lambda>c. c # new) s)
      else if s = [] then []
      else if take (length old) s = old
        then new @ replace old new (drop (length old) s)
      else hd s # replace old new (tl s))"
  by pat_completeness auto
termination
  by (relation "measure (\<lambda>(old, new, s). length s)") auto

declare replace.simps [simp del]

text \<open>Does \<open>pat\<close> occur in \<open>s\<close> as a contiguous substring?\<close>

fun occurs :: "string \<Rightarrow> string \<Rightarrow> bool" where
  "occurs pat [] = (pat = [])"
| "occurs pat (c # cs) = (take (length pat) (c # cs) = pat \<or> occurs pat cs)"

subsection \<open>Decimal integers: \<open>str(n)\<close> and \<open>int(s)\<close>\<close>

definition is_digit :: "char \<Rightarrow> bool" where
  "is_digit c = (let n = (of_char c :: nat) in 48 \<le> n \<and> n \<le> 57)"

definition digit_val :: "char \<Rightarrow> nat" where
  "digit_val c = of_char c - 48"

definition digit_char :: "nat \<Rightarrow> char" where
  "digit_char d = char_of (48 + d)"

fun dec :: "nat \<Rightarrow> string" where
  "dec n = (if n < 10 then [digit_char n] else dec (n div 10) @ [digit_char (n mod 10)])"

declare dec.simps [simp del]

text \<open>
  The interpreter refuses to convert between \<open>int\<close> and \<open>str\<close> a number of more
  decimal digits than \<open>sys.int_max_str_digits\<close>, 4300 unless the operator changes it:
  both \<open>str(n)\<close> and \<open>int(s)\<close> then raise \<open>ValueError\<close>.
\<close>

definition int_max_str_digits :: nat where
  "int_max_str_digits = 4300"

text \<open>\<open>str(n)\<close> for a Python \<open>int\<close>.\<close>

definition py_str :: "int \<Rightarrow> py_exception + string" where
  "py_str n =
     (let digits = dec (nat \<bar>n\<bar>)
      in if int_max_str_digits < length digits then Inl ValueError
         else Inr (if n < 0 then CHR ''-'' # digits else digits))"

text \<open>
  The digits of an integer literal as \<open>int\<close> accepts them: digits and underscores,
  each underscore between two digits, and no more digits than the limit.
\<close>

fun underscores_ok :: "string \<Rightarrow> bool" where
  "underscores_ok [] = True"
| "underscores_ok [c] = (c \<noteq> CHR ''_'')"
| "underscores_ok (c # d # cs) =
     ((c = CHR ''_'' \<longrightarrow> is_digit d) \<and> underscores_ok (d # cs))"

definition digits_value :: "string \<Rightarrow> nat" where
  "digits_value s = foldl (\<lambda>a c. 10 * a + digit_val c) 0 (filter is_digit s)"

definition parse_digits :: "string \<Rightarrow> py_exception + nat" where
  "parse_digits s =
     (if s \<noteq> [] \<and> is_digit (hd s) \<and> (\<forall>c \<in> set s. is_digit c \<or> c = CHR ''_'')
         \<and> underscores_ok s \<and> length (filter is_digit s) \<le> int_max_str_digits
      then Inr (digits_value s) else Inl ValueError)"

text \<open>
  The whitespace \<open>int\<close> skips around the number: the ASCII whitespace of C, and the
  whitespace beyond ASCII. The separators 28 to 31, which \<open>str.strip\<close> removes, are not
  skipped: \<open>int\<close> raises on them.
\<close>

definition is_int_space :: "char \<Rightarrow> bool" where
  "is_int_space c =
     (let n = (of_char c :: nat)
      in (9 \<le> n \<and> n \<le> 13) \<or> n = 32 \<or> n = 133 \<or> n = 160)"

definition int_strip :: "string \<Rightarrow> string" where
  "int_strip s = rev (dropWhile is_int_space (rev (dropWhile is_int_space s)))"

text \<open>\<open>int(s)\<close> for a \<open>str\<close>: surrounding whitespace, an optional sign, the digits.\<close>

definition py_int :: "string \<Rightarrow> py_exception + int" where
  "py_int s =
     (case int_strip s of
        [] \<Rightarrow> Inl ValueError
      | c # cs \<Rightarrow>
          if c = CHR ''-'' then map_sum id (\<lambda>n. - int n) (parse_digits cs)
          else if c = CHR ''+'' then map_sum id int (parse_digits cs)
          else map_sum id int (parse_digits (c # cs)))"

section \<open>The files of the program\<close>

text \<open>
  The three files the program reads and writes, by their content; \<open>None\<close> is an
  absent file. (\<open>CHECKPOINT_FILE\<close>, \<open>OUTPUT_FILE\<close>, \<open>FAIL_FILE\<close>.)
\<close>

record files =
  checkpoint_file :: "string option"
  output_file :: "string option"
  fail_file :: "string option"

section \<open>Checkpoint store\<close>

text \<open>
  \<open>traverse f xs\<close> is \<open>map(f, xs)\<close> consumed to the end, as \<open>join\<close> and \<open>set\<close>
  consume it: the first element on which \<open>f\<close> raises ends it with that exception.
\<close>

fun traverse :: "('a \<Rightarrow> py_exception + 'b) \<Rightarrow> 'a list \<Rightarrow> py_exception + 'b list" where
  "traverse f [] = Inr []"
| "traverse f (x # xs) =
     (case f x of
        Inl e \<Rightarrow> Inl e
      | Inr y \<Rightarrow> (case traverse f xs of Inl e \<Rightarrow> Inl e | Inr ys \<Rightarrow> Inr (y # ys)))"

text \<open>
  \<open>save_checkpoint(completed_indexes)\<close>. The argument is the set in the order in which
  Python iterates over it, which the program does not control. Opening the file for
  writing empties it; the text is built after that, so when \<open>str\<close> raises on an index
  the exception leaves the function with the file empty. The result is the files
  afterwards, together with the exception when one is raised.
\<close>

definition save_checkpoint :: "int list \<Rightarrow> files \<Rightarrow> py_exception \<times> files + files" where
  "save_checkpoint completed_indexes fs =
     (let opened = fs\<lparr>checkpoint_file := Some []\<rparr>
      in case traverse py_str completed_indexes of
           Inl e \<Rightarrow> Inl (e, opened)
         | Inr texts \<Rightarrow> Inr (opened\<lparr>checkpoint_file := Some (join '','' texts)\<rparr>))"

definition load_checkpoint :: "files \<Rightarrow> py_exception + int set" where
  "load_checkpoint fs =
     (case checkpoint_file fs of
        None \<Rightarrow> Inr {}
      | Some text \<Rightarrow>
          (let content = strip text
           in if content \<noteq> []
              then map_sum id set (traverse py_int (split_on CHR '','' content))
              else Inr {}))"

section \<open>Model Client (\<open>kimi_api.py\<close>)\<close>

definition MODEL_NAME :: string where
  "MODEL_NAME = ''kimi-latest''"

record message =
  role :: string
  content :: string

text \<open>
  What the program does not contain is a parameter:
  \<^item> \<open>completions_create task model messages\<close> is the remote service
    (\<open>client.chat.completions.create\<close>): it raises, or returns the message contents
    of the choices of the completion (\<open>None\<close> for a choice without content). The first
    argument is the index of the task that makes the request: the service is not a
    function of the request alone, and the tasks run independently of each other.
  \<^item> \<open>json_loads\<close> is \<open>json.loads\<close> on a text that starts with an opening brace: it
    returns the decoded object, a dictionary given by its items, or raises.
  \<^item> \<open>repr_json\<close> is the text an f-string puts for a decoded value that is not a
    \<open>str\<close>.
  \<^item> \<open>prompt_head\<close>, \<open>prompt_tail\<close>, \<open>check_head\<close>, \<open>check_tail\<close> are the fixed
    texts of the two prompt templates, before and after the inserted value.
  \<^item> \<open>set_order\<close> is the order in which Python iterates over a set of integers.
\<close>

record env =
  completions_create :: "int \<Rightarrow> string \<Rightarrow> message list \<Rightarrow> py_exception + string option list"
  json_loads :: "string \<Rightarrow> py_exception + (string \<times> json) list"
  repr_json :: "json \<Rightarrow> string"
  prompt_head :: string
  prompt_tail :: string
  check_head :: string
  check_tail :: string
  set_order :: "int set \<Rightarrow> int list"

text \<open>
  \<open>send_messages(messages)\<close>: one request, then
  \<open>completion.choices[0].message.content.strip()\<close>.
\<close>

definition send_messages :: "env \<Rightarrow> int \<Rightarrow> message list \<Rightarrow> py_exception + string" where
  "send_messages env task messages =
     (case completions_create env task MODEL_NAME messages of
        Inl e \<Rightarrow> Inl e
      | Inr choices \<Rightarrow>
          (case choices of
             [] \<Rightarrow> Inl IndexError
           | choice # _ \<Rightarrow>
               (case choice of
                  None \<Rightarrow> Inl AttributeError
                | Some text \<Rightarrow> Inr (strip text))))"

section \<open>Response Parser\<close>

definition clean_value :: "json \<Rightarrow> json" where
  "clean_value v =
     (case v of
        JStr s \<Rightarrow> JStr (replace [newline] [backslash, CHR ''n''] s)
      | _ \<Rightarrow> v)"

text \<open>
  \<open>re.search(r'\{.*\}', response, re.DOTALL)\<close>: the leftmost match starts at the first
  opening brace that has a closing brace after it, which is the first opening brace of
  the text if any has; the greedy \<open>.*\<close>, which also matches newlines, extends the match to
  the last closing brace of the text.
\<close>

definition re_search_braces :: "string \<Rightarrow> string option" where
  "re_search_braces response =
     (let from_open = dropWhile (\<lambda>c. c \<noteq> CHR ''{'') response
      in if CHR ''}'' \<in> set from_open
         then Some (rev (dropWhile (\<lambda>c. c \<noteq> CHR ''}'') (rev from_open)))
         else None)"

text \<open>
  \<open>extract_json(response)\<close>: \<open>None\<close> without a match or when the decoder raises
  \<open>JSONDecodeError\<close>, the only exception the function handles.
\<close>

definition extract_json :: "env \<Rightarrow> string \<Rightarrow> py_exception + (string \<times> json) list option" where
  "extract_json env response =
     (case re_search_braces response of
        Some matched \<Rightarrow>
          (case json_loads env matched of
             Inr d \<Rightarrow> Inr (Some d)
           | Inl e \<Rightarrow> if e = JSONDecodeError then Inr None else Inl e)
      | None \<Rightarrow> Inr None)"

section \<open>Task Unit\<close>

text \<open>The dictionary \<open>process_sentence\<close> returns on success, by its three values.\<close>

record generation =
  affirmation :: string
  monologue :: json
  model_name :: string

text \<open>
  The test \<open>parsed and "inner_monologue" in parsed\<close> together with the lookup
  \<open>parsed["inner_monologue"]\<close> that follows it: \<open>None\<close> when the test fails (no
  dictionary, an empty one, or one without the key).
\<close>

definition inner_monologue :: "(string \<times> json) list option \<Rightarrow> json option" where
  "inner_monologue parsed =
     (case parsed of
        None \<Rightarrow> None
      | Some d \<Rightarrow> if d \<noteq> [] then map_of d ''inner_monologue'' else None)"

definition format_value :: "env \<Rightarrow> json \<Rightarrow> string" where
  "format_value env v = (case v of JStr s \<Rightarrow> s | _ \<Rightarrow> repr_json env v)"

text \<open>
  The body of the \<open>try\<close> block of \<open>process_sentence\<close>. The first component of the result
  lists the conversations sent to the Model Client, in order.
\<close>

definition process_sentence_try ::
  "env \<Rightarrow> int \<Rightarrow> string \<Rightarrow> message list list \<times> (py_exception + int \<times> generation option)" where
  "process_sentence_try env index sentence =
     (let prompt = prompt_head env @ sentence @ prompt_tail env;
          messages = [\<lparr>role = ''user'', content = prompt\<rparr>]
      in case send_messages env index messages of
           Inl e \<Rightarrow> ([messages], Inl e)
         | Inr response \<Rightarrow>
             (case extract_json env response of
                Inl e \<Rightarrow> ([messages], Inl e)
              | Inr parsed_response \<Rightarrow>
                  (case inner_monologue parsed_response of
                     None \<Rightarrow> ([messages], Inr (index, None))
                   | Some draft \<Rightarrow>
                       (let check_prompt = check_head env @ format_value env draft @ check_tail env;
                            messages2 = messages @ [\<lparr>role = ''user'', content = check_prompt\<rparr>]
                        in case send_messages env index messages2 of
                             Inl e \<Rightarrow> ([messages, messages2], Inl e)
                           | Inr check_response \<Rightarrow>
                               (case extract_json env check_response of
                                  Inl e \<Rightarrow> ([messages, messages2], Inl e)
                                | Inr check_parsed_response \<Rightarrow>
                                    (case inner_monologue check_parsed_response of
                                       None \<Rightarrow> ([messages, messages2], Inr (index, None))
                                     | Some final \<Rightarrow>
                                         ([messages, messages2],
                                          Inr (index,
                                               Some \<lparr>affirmation = sentence,
                                                     monologue = clean_value final,
                                                     model_name = MODEL_NAME\<rparr>))))))))"

text \<open>\<open>process_sentence(index, sentence)\<close>: the \<open>try\<close> block under \<open>except Exception\<close>.\<close>

definition process_sentence ::
  "env \<Rightarrow> int \<Rightarrow> string \<Rightarrow> message list list \<times> (py_exception + int \<times> generation option)" where
  "process_sentence env index sentence =
     (case process_sentence_try env index sentence of
        (calls, Inl e) \<Rightarrow> (calls, Inr (index, None))
      | (calls, Inr r) \<Rightarrow> (calls, Inr r))"

section \<open>Batch Orchestrator\<close>

datatype failure = Failure (failed_affirmation: string)

text \<open>\<open>xs[i]\<close> on a Python list: a negative index counts from the end.\<close>

definition py_index :: "'a list \<Rightarrow> int \<Rightarrow> py_exception + 'a" where
  "py_index xs i =
     (if 0 \<le> i \<and> i < int (length xs) then Inr (xs ! nat i)
      else if i < 0 \<and> - int (length xs) \<le> i then Inr (xs ! nat (int (length xs) + i))
      else Inl IndexError)"

text \<open>
  \<open>as_completed\<close>: the submitted tasks in the order in which they finish. The schedule
  says, step by step, which of the tasks still running finishes next; when it is
  exhausted the remaining tasks finish in the order of submission.
\<close>

fun as_completed :: "nat list \<Rightarrow> 'a list \<Rightarrow> 'a list" where
  "as_completed schedule [] = []"
| "as_completed [] tasks = tasks"
| "as_completed (p # schedule) tasks =
     (let k = p mod length tasks
      in tasks ! k # as_completed schedule (take k tasks @ drop (Suc k) tasks))"

text \<open>The three collections the loop over the finished tasks updates.\<close>

record collected =
  got_results :: "generation list"
  got_fail_data :: "failure list"
  got_completed :: "int set"

fun collect ::
  "string list \<Rightarrow> int \<Rightarrow> (py_exception + int \<times> generation option) list \<Rightarrow> collected
     \<Rightarrow> py_exception + collected" where
  "collect sentences start_index [] acc = Inr acc"
| "collect sentences start_index (future # futures) acc =
     (case future of
        Inl e \<Rightarrow> Inl e
      | Inr (index, result) \<Rightarrow>
          (case result of
             Some r \<Rightarrow>
               collect sentences start_index futures
                 (acc\<lparr>got_results := got_results acc @ [r],
                      got_completed := insert index (got_completed acc)\<rparr>)
           | None \<Rightarrow>
               (case py_index sentences (index - start_index) of
                  Inl e \<Rightarrow> Inl e
                | Inr original_sentence \<Rightarrow>
                    collect sentences start_index futures
                      (acc\<lparr>got_fail_data := got_fail_data acc @ [Failure original_sentence]\<rparr>))))"

text \<open>The list \<open>to_process\<close>.\<close>

definition to_process :: "int set \<Rightarrow> string list \<Rightarrow> int \<Rightarrow> (int \<times> string) list" where
  "to_process completed_indexes sentences start_index =
     filter (\<lambda>(idx, s). idx \<notin> completed_indexes)
       (map (\<lambda>(i, s). (int i + start_index, s)) (enumerate 0 sentences))"

text \<open>
  What a run of the orchestrator returns and does: the two lists it returns, the tasks
  it submitted to the pool, the conversations sent to the Model Client, and the files
  afterwards. A run that raises gives the exception and the files it leaves.
\<close>

record run =
  results :: "generation list"
  fail_data :: "failure list"
  submitted :: "(int \<times> string) list"
  client_calls :: "message list list"
  files_after :: files

definition process_sentences_concurrently ::
  "env \<Rightarrow> nat list \<Rightarrow> files \<Rightarrow> string list \<Rightarrow> int \<Rightarrow> bool
     \<Rightarrow> py_exception \<times> files + run" where
  "process_sentences_concurrently env schedule fs sentences start_index ignore_checkpoint =
     (case (if ignore_checkpoint then Inr {} else load_checkpoint fs) of
        Inl e \<Rightarrow> Inl (e, fs)
      | Inr completed_indexes \<Rightarrow>
          (let tasks = to_process completed_indexes sentences start_index
           in if tasks = []
              then Inr \<lparr>results = [], fail_data = [], submitted = [], client_calls = [],
                        files_after = fs\<rparr>
              else
                (let finished =
                       map (\<lambda>(idx, sent). process_sentence env idx sent)
                         (as_completed schedule tasks)
                 in case collect sentences start_index (map snd finished)
                           \<lparr>got_results = [], got_fail_data = [],
                            got_completed = completed_indexes\<rparr> of
                      Inl e \<Rightarrow> Inl (e, fs)
                    | Inr acc \<Rightarrow>
                        (case (if \<not> ignore_checkpoint
                               then save_checkpoint (set_order env (got_completed acc)) fs
                               else Inr fs) of
                           Inl raised \<Rightarrow> Inl raised
                         | Inr fs' \<Rightarrow>
                             Inr \<lparr>results = got_results acc,
                                  fail_data = got_fail_data acc,
                                  submitted = tasks,
                                  client_calls = concat (map fst finished),
                                  files_after = fs'\<rparr>))))"

text \<open>A task fails when \<open>process_sentence\<close> returns its index with \<open>None\<close>.\<close>

definition failed :: "env \<Rightarrow> int \<times> string \<Rightarrow> bool" where
  "failed env task =
     (case task of (idx, s) \<Rightarrow> snd (process_sentence env idx s) = Inr (idx, None))"

section \<open>Result Sink\<close>



section \<open>An example environment\<close>

text \<open>
  A Model Client and a decoder to run the program on. The task with index 1 is always
  answered with a text that holds no JSON; every other task receives a draft to its
  first request and a refined text, with a line break in it, to its second. The decoder
  knows these two replies.
\<close>

definition dq :: string where
  "dq = [CHR 0x22]"

definition draft_reply :: string where
  "draft_reply =
     ''{'' @ dq @ ''inner_monologue'' @ dq @ '':'' @ dq @ ''draft text'' @ dq @ ''}''"

definition final_reply :: string where
  "final_reply =
     ''{'' @ dq @ ''inner_monologue'' @ dq @ '':'' @ dq @ ''final text''
       @ [backslash, CHR ''n''] @ ''with a break'' @ dq @ ''}''"

definition example_loads :: "string \<Rightarrow> py_exception + (string \<times> json) list" where
  "example_loads s =
     (if s = draft_reply then Inr [(''inner_monologue'', JStr ''draft text'')]
      else if s = final_reply
        then Inr [(''inner_monologue'', JStr (''final text'' @ [newline] @ ''with a break''))]
      else Inl JSONDecodeError)"

definition example_env :: env where
  "example_env =
     \<lparr>completions_create =
        (\<lambda>task model messages.
           if task = 1 then Inr [Some ''not json at all'']
           else if length messages = 1 then Inr [Some draft_reply]
           else Inr [Some final_reply]),
      json_loads = example_loads,
      repr_json = (\<lambda>v. []),
      prompt_head = ''Affirmation: '',
      prompt_tail = '' (reply as JSON)'',
      check_head = ''Previous: '',
      check_tail = '' (revise, reply as JSON)'',
      set_order = sorted_list_of_set\<rparr>"

definition example_files :: files where
  "example_files = \<lparr>checkpoint_file = Some ''0,1,2'', output_file = None, fail_file = None\<rparr>"

text \<open>A Model Client that cannot be reached: every request raises.\<close>

definition offline_env :: env where
  "offline_env =
     example_env\<lparr>completions_create :=
                   (\<lambda>task model messages. Inl (OtherException ''connection refused''))\<rparr>"

text \<open>
  A decoder with a recursion limit, as the decoder of CPython has one: a text nested
  deeper than the limit makes it raise \<open>RecursionError\<close>, which is not a
  \<open>JSONDecodeError\<close>. \<open>max_nesting\<close> is the deepest nesting of braces and brackets in a
  text; \<open>nested_reply n\<close> is a reply of \<open>n\<close> objects, one inside the other.
\<close>

fun max_nesting :: "nat \<Rightarrow> string \<Rightarrow> nat" where
  "max_nesting depth [] = 0"
| "max_nesting depth (c # cs) =
     (if c = CHR ''{'' \<or> c = CHR ''['' then max (Suc depth) (max_nesting (Suc depth) cs)
      else if c = CHR ''}'' \<or> c = CHR '']'' then max_nesting (depth - 1) cs
      else max_nesting depth cs)"

definition limited_loads :: "nat \<Rightarrow> string \<Rightarrow> py_exception + (string \<times> json) list" where
  "limited_loads limit s =
     (if limit < max_nesting 0 s then Inl RecursionError else example_loads s)"

definition nested_reply :: "nat \<Rightarrow> string" where
  "nested_reply n =
     concat (replicate n (''{'' @ dq @ ''a'' @ dq @ '':'')) @ ''1'' @ replicate n CHR ''}''"


section \<open>Properties\<close>

subsection \<open>Decimal integers and the checkpoint file\<close>

lemma is_digit_digit_char: "d < 10 \<Longrightarrow> is_digit (digit_char d)"
  by (simp add: is_digit_def digit_char_def)

lemma digit_val_digit_char: "d < 10 \<Longrightarrow> digit_val (digit_char d) = d"
  by (simp add: digit_val_def digit_char_def)

lemma dec_digits: "c \<in> set (dec n) \<Longrightarrow> is_digit c"
proof (induction n arbitrary: c rule: dec.induct)
  case (1 n)
  show ?case
  proof (cases "n < 10")
    case True
    with "1.prems" show ?thesis
      by (simp add: dec.simps [of n] is_digit_digit_char)
  next
    case False
    with "1.prems" "1.IH" show ?thesis
      by (auto simp: dec.simps [of n] is_digit_digit_char)
  qed
qed

lemma dec_nonempty: "dec n \<noteq> []"
  by (subst dec.simps) simp

text \<open>A number has at most \<open>k\<close> decimal digits exactly when it is below \<open>10 ^ k\<close>.\<close>

lemma dec_length: "0 < k \<Longrightarrow> length (dec n) \<le> k \<longleftrightarrow> n < 10 ^ k"
proof (induction n arbitrary: k rule: dec.induct)
  case (1 n)
  show ?case
  proof (cases "n < 10")
    case True
    have "(10::nat) ^ 1 \<le> 10 ^ k"
      using "1.prems" by (intro power_increasing) simp_all
    with True have "n < 10 ^ k" by simp
    with True "1.prems" show ?thesis
      by (simp add: dec.simps [of n])
  next
    case False
    show ?thesis
    proof (cases "k = 1")
      case True
      have "0 < length (dec (n div 10))" using dec_nonempty by simp
      with False True show ?thesis
        by (simp add: dec.simps [of n])
    next
      case k: False
      with "1.prems" obtain j where j: "k = Suc j" "0 < j"
        by (cases k) auto
      from "1.IH" [OF False j(2)]
      have "length (dec (n div 10)) \<le> j \<longleftrightarrow> n div 10 < 10 ^ j" .
      moreover have "n div 10 < 10 ^ j \<longleftrightarrow> n < 10 ^ Suc j"
        by (simp add: div_less_iff_less_mult mult.commute)
      ultimately show ?thesis
        using False j by (simp add: dec.simps [of n])
    qed
  qed
qed

lemma filter_digits_id: "(\<And>c. c \<in> set s \<Longrightarrow> is_digit c) \<Longrightarrow> filter is_digit s = s"
  by (induction s) auto

lemma digits_value_dec: "digits_value (dec n) = n"
proof (induction n rule: dec.induct)
  case (1 n)
  show ?case
  proof (cases "n < 10")
    case True
    then show ?thesis
      by (simp add: dec.simps [of n] digits_value_def is_digit_digit_char digit_val_digit_char)
  next
    case False
    have f: "filter is_digit (dec (n div 10)) = dec (n div 10)"
      by (rule filter_digits_id) (rule dec_digits)
    from False "1.IH" have "digits_value (dec (n div 10)) = n div 10" by simp
    with False f show ?thesis
      by (simp add: dec.simps [of n] digits_value_def is_digit_digit_char digit_val_digit_char)
  qed
qed

lemma is_digit_not_underscore: "is_digit c \<Longrightarrow> c \<noteq> CHR ''_''"
  by (auto simp: is_digit_def)

lemma is_digit_not_sign: "is_digit c \<Longrightarrow> c \<noteq> CHR ''-'' \<and> c \<noteq> CHR ''+''"
  by (auto simp: is_digit_def)

lemma is_digit_not_space: "is_digit c \<Longrightarrow> \<not> is_space c \<and> \<not> is_int_space c"
  by (auto simp: is_digit_def is_space_def is_int_space_def Let_def)

lemma is_digit_not_comma: "is_digit c \<Longrightarrow> c \<noteq> CHR '',''"
  by (auto simp: is_digit_def)

lemma underscores_ok_digits: "(\<And>c. c \<in> set s \<Longrightarrow> is_digit c) \<Longrightarrow> underscores_ok s"
  by (induction s rule: underscores_ok.induct) (auto dest: is_digit_not_underscore)

lemma parse_digits_dec:
  assumes "length (dec n) \<le> int_max_str_digits"
  shows "parse_digits (dec n) = Inr n"
proof -
  have "is_digit (hd (dec n))"
    using dec_nonempty [of n] dec_digits [of "hd (dec n)" n] by simp
  moreover have "underscores_ok (dec n)"
    by (rule underscores_ok_digits) (rule dec_digits)
  moreover have "filter is_digit (dec n) = dec n"
    by (rule filter_digits_id) (rule dec_digits)
  ultimately show ?thesis
    using assms dec_nonempty [of n] dec_digits [of _ n]
    by (simp add: parse_digits_def digits_value_dec)
qed

lemma strip_no_space: "(\<And>c. c \<in> set s \<Longrightarrow> \<not> is_space c) \<Longrightarrow> strip s = s"
proof -
  assume h: "\<And>c. c \<in> set s \<Longrightarrow> \<not> is_space c"
  have a: "dropWhile is_space s = s"
    using h by (cases s) auto
  have b: "dropWhile is_space (rev s) = rev s"
    using h by (cases "rev s") (auto dest: arg_cong [where f = set])
  show ?thesis by (simp add: strip_def a b)
qed

lemma int_strip_no_space: "(\<And>c. c \<in> set s \<Longrightarrow> \<not> is_int_space c) \<Longrightarrow> int_strip s = s"
proof -
  assume h: "\<And>c. c \<in> set s \<Longrightarrow> \<not> is_int_space c"
  have a: "dropWhile is_int_space s = s"
    using h by (cases s) auto
  have b: "dropWhile is_int_space (rev s) = rev s"
    using h by (cases "rev s") (auto dest: arg_cong [where f = set])
  show ?thesis by (simp add: int_strip_def a b)
qed

text \<open>\<open>str\<close> raises exactly on the integers of more digits than the limit.\<close>

lemma digits_within_limit:
  "length (dec (nat \<bar>n\<bar>)) \<le> int_max_str_digits \<longleftrightarrow> \<bar>n\<bar> < 10 ^ int_max_str_digits"
proof -
  have "0 < int_max_str_digits" by (simp add: int_max_str_digits_def)
  then have "length (dec (nat \<bar>n\<bar>)) \<le> int_max_str_digits
               \<longleftrightarrow> nat \<bar>n\<bar> < 10 ^ int_max_str_digits"
    by (rule dec_length)
  also have "\<dots> \<longleftrightarrow> \<bar>n\<bar> < int (10 ^ int_max_str_digits)"
    by (simp add: nat_less_iff)
  finally show ?thesis by simp
qed

lemma py_str_raises: "10 ^ int_max_str_digits \<le> \<bar>n\<bar> \<Longrightarrow> py_str n = Inl ValueError"
  using digits_within_limit [of n] by (simp add: py_str_def Let_def)

lemma py_str_returns:
  "\<bar>n\<bar> < 10 ^ int_max_str_digits \<Longrightarrow>
     py_str n = Inr (if n < 0 then CHR ''-'' # dec (nat \<bar>n\<bar>) else dec (nat \<bar>n\<bar>))"
  using digits_within_limit [of n] by (simp add: py_str_def Let_def)

lemma py_str_error: "py_str n = Inl e \<Longrightarrow> e = ValueError"
  by (auto simp: py_str_def Let_def split: if_splits)

lemma py_str_chars: "py_str n = Inr s \<Longrightarrow> c \<in> set s \<Longrightarrow> is_digit c \<or> c = CHR ''-''"
  by (auto simp: py_str_def Let_def dest: dec_digits split: if_splits)

lemma py_str_no_space: "py_str n = Inr s \<Longrightarrow> c \<in> set s \<Longrightarrow> \<not> is_space c \<and> \<not> is_int_space c"
  by (auto dest!: py_str_chars is_digit_not_space simp: is_space_def is_int_space_def)

lemma py_str_no_comma: "py_str n = Inr s \<Longrightarrow> CHR '','' \<notin> set s"
  by (auto dest!: py_str_chars is_digit_not_comma)

lemma py_str_nonempty: "py_str n = Inr s \<Longrightarrow> s \<noteq> []"
  by (auto simp: py_str_def Let_def dec_nonempty split: if_splits)

lemma py_int_py_str:
  assumes "py_str n = Inr s"
  shows "py_int s = Inr n"
proof -
  from assms have len: "length (dec (nat \<bar>n\<bar>)) \<le> int_max_str_digits"
    and s: "s = (if n < 0 then CHR ''-'' # dec (nat \<bar>n\<bar>) else dec (nat \<bar>n\<bar>))"
    by (auto simp: py_str_def Let_def split: if_splits)
  have st: "int_strip s = s"
    using py_str_no_space [OF assms] by (intro int_strip_no_space) blast
  have p: "parse_digits (dec (nat \<bar>n\<bar>)) = Inr (nat \<bar>n\<bar>)"
    using len by (rule parse_digits_dec)
  show ?thesis
  proof (cases "n < 0")
    case True
    with s st p show ?thesis
      by (simp add: py_int_def)
  next
    case False
    obtain c cs where d: "dec (nat \<bar>n\<bar>) = c # cs"
      using dec_nonempty [of "nat \<bar>n\<bar>"] by (cases "dec (nat \<bar>n\<bar>)") auto
    have "is_digit c" using dec_digits [of c "nat \<bar>n\<bar>"] d by simp
    then have ns: "c \<noteq> CHR ''-''" "c \<noteq> CHR ''+''"
      using is_digit_not_sign by auto
    from False s st p d ns show ?thesis
      by (simp add: py_int_def)
  qed
qed

text \<open>\<open>int\<close> raises on a separator that \<open>str.strip\<close> would remove.\<close>

lemma py_int_separator: "py_int [CHR 0x1C, CHR ''2''] = Inl ValueError"
  by (simp add: py_int_def int_strip_def is_int_space_def parse_digits_def is_digit_def)

lemma split_on_nonempty: "split_on sep s \<noteq> []"
  by (induction s) auto

lemma split_on_no_sep: "sep \<notin> set x \<Longrightarrow> split_on sep x = [x]"
  by (induction x) auto

lemma split_on_append: "sep \<notin> set x \<Longrightarrow> split_on sep (x @ sep # r) = x # split_on sep r"
  by (induction x) auto

lemma split_on_join:
  "xs \<noteq> [] \<Longrightarrow> (\<And>x. x \<in> set xs \<Longrightarrow> sep \<notin> set x) \<Longrightarrow> split_on sep (join [sep] xs) = xs"
proof (induction "[sep]" xs rule: join.induct)
  case 1
  then show ?case by simp
next
  case (2 x)
  then show ?case by (simp add: split_on_no_sep)
next
  case (3 x y ys)
  then show ?case by (simp add: split_on_append)
qed

text \<open>
  When \<open>f\<close> returns on every element and \<open>h\<close> undoes it, \<open>traverse f\<close> returns the
  results, each the result of an element, and \<open>traverse h\<close> gives the elements back.
\<close>

lemma traverse_inverse:
  assumes "\<And>x. x \<in> set xs \<Longrightarrow> \<exists>y. f x = Inr y"
    and "\<And>x y. f x = Inr y \<Longrightarrow> h y = Inr x"
  shows "\<exists>ys. traverse f xs = Inr ys \<and> traverse h ys = Inr xs
            \<and> (ys = [] \<longleftrightarrow> xs = []) \<and> (\<forall>y \<in> set ys. \<exists>x. f x = Inr y)"
  using assms(1)
proof (induction xs)
  case Nil
  then show ?case by simp
next
  case (Cons x xs)
  from Cons.prems obtain y where y: "f x = Inr y" by auto
  from Cons.IH Cons.prems obtain ys where ys: "traverse f xs = Inr ys" "traverse h ys = Inr xs"
    "\<forall>y \<in> set ys. \<exists>x. f x = Inr y"
    by auto
  from y ys assms(2) [OF y] show ?case by auto
qed

lemma traverse_raises:
  assumes "x \<in> set xs" and "f x = Inl e"
    and "\<And>x' e'. f x' = Inl e' \<Longrightarrow> e' = e"
  shows "traverse f xs = Inl e"
  using assms(1)
proof (induction xs)
  case Nil
  then show ?case by simp
next
  case (Cons a xs)
  show ?case
  proof (cases "f a")
    case (Inl e')
    with assms(3) show ?thesis by simp
  next
    case (Inr y)
    with Cons assms(2) have "traverse f xs = Inl e" by auto
    with Inr show ?thesis by simp
  qed
qed

lemma join_chars: "c \<in> set (join sep xs) \<Longrightarrow> c \<in> set sep \<or> (\<exists>x \<in> set xs. c \<in> set x)"
  by (induction sep xs rule: join.induct) auto

lemma join_nonempty: "xs \<noteq> [] \<Longrightarrow> (\<And>x. x \<in> set xs \<Longrightarrow> x \<noteq> []) \<Longrightarrow> join sep xs \<noteq> []"
  by (induction sep xs rule: join.induct) auto

lemma comma_not_space: "\<not> is_space CHR '',''"
  by (simp add: is_space_def)

lemma all_space_strip: "(\<And>c. c \<in> set s \<Longrightarrow> is_space c) \<Longrightarrow> strip s = []"
proof -
  assume h: "\<And>c. c \<in> set s \<Longrightarrow> is_space c"
  then have d: "dropWhile is_space s = []" by (simp add: dropWhile_eq_Nil_conv)
  show ?thesis unfolding strip_def d by simp
qed

text \<open>What \<open>int\<close> returns has no more digits than the limit.\<close>

lemma digit_val_bound: "is_digit c \<Longrightarrow> digit_val c \<le> 9"
  by (auto simp: is_digit_def digit_val_def Let_def)

lemma foldl_digits_bound:
  "(\<And>c. c \<in> set ds \<Longrightarrow> is_digit c) \<Longrightarrow>
     foldl (\<lambda>a c. 10 * a + digit_val c) a ds < (a + 1) * 10 ^ length ds"
proof (induction ds arbitrary: a)
  case Nil
  then show ?case by simp
next
  case (Cons d ds)
  have "digit_val d \<le> 9" using Cons.prems by (simp add: digit_val_bound)
  then have le: "(10 * a + digit_val d + 1) * 10 ^ length ds \<le> (10 * a + 10) * 10 ^ length ds"
    by (intro mult_right_mono) simp_all
  have "foldl (\<lambda>a c. 10 * a + digit_val c) (10 * a + digit_val d) ds
          < (10 * a + digit_val d + 1) * 10 ^ length ds"
    using Cons.prems by (intro Cons.IH) simp
  also note le
  also have "(10 * a + 10) * 10 ^ length ds = (a + 1) * 10 ^ length (d # ds)"
    by (simp add: algebra_simps)
  finally show ?case by simp
qed

lemma parse_digits_small: "parse_digits s = Inr n \<Longrightarrow> n < 10 ^ int_max_str_digits"
proof -
  assume "parse_digits s = Inr n"
  then have n: "n = digits_value s" and l: "length (filter is_digit s) \<le> int_max_str_digits"
    by (auto simp: parse_digits_def split: if_splits)
  have "digits_value s < 10 ^ length (filter is_digit s)"
    using foldl_digits_bound [of "filter is_digit s" 0] by (simp add: digits_value_def)
  also have "\<dots> \<le> 10 ^ int_max_str_digits"
    using l by (intro power_increasing) simp_all
  finally show ?thesis using n by simp
qed

lemma py_int_small: "py_int s = Inr n \<Longrightarrow> \<bar>n\<bar> < 10 ^ int_max_str_digits"
proof -
  assume a: "py_int s = Inr n"
  have "\<bar>n\<bar> < 10 ^ int_max_str_digits"
    if "map_sum id (\<lambda>k. - int k) (parse_digits t) = Inr n
        \<or> map_sum id int (parse_digits t) = Inr n" for t
  proof (cases "parse_digits t")
    case (Inl e)
    with that show ?thesis by simp
  next
    case (Inr k)
    then have "int k < int (10 ^ int_max_str_digits)"
      using parse_digits_small [of t k] by (simp only: of_nat_less_iff)
    with that Inr show ?thesis by auto
  qed
  with a show ?thesis
    by (auto simp: py_int_def split: list.splits if_splits)
qed

lemma traverse_results:
  "traverse f xs = Inr ys \<Longrightarrow> y \<in> set ys \<Longrightarrow> \<exists>x \<in> set xs. f x = Inr y"
  by (induction xs arbitrary: ys) (auto split: sum.splits)

lemma load_checkpoint_small:
  "load_checkpoint fs = Inr indexes \<Longrightarrow> x \<in> indexes \<Longrightarrow> \<bar>x\<bar> < 10 ^ int_max_str_digits"
proof -
  assume l: "load_checkpoint fs = Inr indexes" and x: "x \<in> indexes"
  show ?thesis
  proof (cases "indexes = {}")
    case True
    with x show ?thesis by simp
  next
    case False
    with l obtain tokens where "map_sum id set (traverse py_int tokens) = Inr indexes"
      by (auto simp: load_checkpoint_def Let_def split: option.splits if_splits)
    then obtain ys where t: "traverse py_int tokens = Inr ys" and i: "indexes = set ys"
      by (cases "traverse py_int tokens") auto
    from traverse_results [OF t] x i obtain token where "py_int token = Inr x"
      by blast
    then show ?thesis by (rule py_int_small)
  qed
qed

lemma load_empty_file: "load_checkpoint (fs\<lparr>checkpoint_file := Some []\<rparr>) = Inr {}"
  by (simp add: load_checkpoint_def strip_def)

lemma save_checkpoint_returns:
  assumes "\<And>x. x \<in> set xs \<Longrightarrow> \<bar>x\<bar> < 10 ^ int_max_str_digits"
  shows "\<exists>fs'. save_checkpoint xs fs = Inr fs' \<and> load_checkpoint fs' = Inr (set xs)"
proof -
  have "\<And>x. x \<in> set xs \<Longrightarrow> \<exists>y. py_str x = Inr y"
    using assms py_str_returns by blast
  from traverse_inverse [of xs py_str py_int, OF this py_int_py_str]
  obtain texts where t: "traverse py_str xs = Inr texts" "traverse py_int texts = Inr xs"
    "texts = [] \<longleftrightarrow> xs = []" "\<forall>y \<in> set texts. \<exists>x. py_str x = Inr y"
    by blast
  let ?text = "join '','' texts"
  have s: "save_checkpoint xs fs = Inr (fs\<lparr>checkpoint_file := Some ?text\<rparr>)"
    using t(1) by (simp add: save_checkpoint_def)
  have l: "load_checkpoint (fs\<lparr>checkpoint_file := Some ?text\<rparr>) = Inr (set xs)"
  proof (cases "xs = []")
    case True
    with t(3) show ?thesis
      by (simp add: load_checkpoint_def strip_def)
  next
    case False
    with t(3) have tn: "texts \<noteq> []" by simp
    have ns: "\<And>c. c \<in> set ?text \<Longrightarrow> \<not> is_space c"
      using comma_not_space t(4) by (auto dest!: join_chars dest: py_str_no_space)
    have st: "strip ?text = ?text"
      by (rule strip_no_space) (rule ns)
    have ne: "?text \<noteq> []"
      using tn t(4) by (intro join_nonempty) (auto dest: py_str_nonempty)
    have sp: "split_on CHR '','' ?text = texts"
      using tn t(4) by (intro split_on_join) (auto dest: py_str_no_comma)
    show ?thesis
      using st ne sp t(2) by (simp add: load_checkpoint_def)
  qed
  from s l show ?thesis by simp
qed

lemma save_checkpoint_raises:
  assumes "x \<in> set xs" and "10 ^ int_max_str_digits \<le> \<bar>x\<bar>"
  shows "save_checkpoint xs fs = Inl (ValueError, fs\<lparr>checkpoint_file := Some []\<rparr>)"
proof -
  have "traverse py_str xs = Inl ValueError"
    using assms(1) py_str_raises [OF assms(2)] py_str_error by (rule traverse_raises)
  then show ?thesis by (simp add: save_checkpoint_def)
qed

text \<open>
  Claim C3, as amended. Saving a set of indexes whose decimal forms have no more
  digits than the interpreter converts (4300 by default), then loading the checkpoint
  again, gives back exactly that set, whatever the order \<open>xs\<close> in which the set was
  written out; the integers need not even be non-negative. When an index has more
  digits, \<open>save_checkpoint\<close> raises \<open>ValueError\<close> and leaves the file empty, which loads
  as the empty set.
\<close>

theorem checkpoint_roundtrip:
  "((\<forall>x \<in> set xs. \<bar>x\<bar> < 10 ^ int_max_str_digits) \<longrightarrow>
      (\<exists>fs'. save_checkpoint xs fs = Inr fs' \<and> load_checkpoint fs' = Inr (set xs)))
   \<and> ((\<exists>x \<in> set xs. 10 ^ int_max_str_digits \<le> \<bar>x\<bar>) \<longrightarrow>
      save_checkpoint xs fs = Inl (ValueError, fs\<lparr>checkpoint_file := Some []\<rparr>)
      \<and> load_checkpoint (fs\<lparr>checkpoint_file := Some []\<rparr>) = Inr {})"
  using save_checkpoint_returns [of xs fs] save_checkpoint_raises [of _ xs fs] load_empty_file [of fs]
  by blast

lemma below_limit: "\<bar>x\<bar> < 100 \<Longrightarrow> \<bar>x :: int\<bar> < 10 ^ int_max_str_digits"
proof -
  assume "\<bar>x\<bar> < 100"
  moreover have "(10::int) ^ 2 \<le> 10 ^ int_max_str_digits"
    by (intro power_increasing) (simp_all add: int_max_str_digits_def)
  ultimately show ?thesis by simp
qed

theorem checkpoint_roundtrip_witness:
  "\<bar>0 :: int\<bar> < 10 ^ int_max_str_digits \<and> \<bar>7 :: int\<bar> < 10 ^ int_max_str_digits
   \<and> \<bar>12 :: int\<bar> < 10 ^ int_max_str_digits
   \<and> (\<exists>fs'. save_checkpoint [0, 7, 12] example_files = Inr fs'
          \<and> load_checkpoint fs' = Inr {0, 7, 12})"
proof -
  have b: "\<bar>0 :: int\<bar> < 10 ^ int_max_str_digits" "\<bar>7 :: int\<bar> < 10 ^ int_max_str_digits"
    "\<bar>12 :: int\<bar> < 10 ^ int_max_str_digits"
    using below_limit [of 0] below_limit [of 7] below_limit [of 12] by simp_all
  then have "\<forall>x \<in> set [0, 7, 12 :: int]. \<bar>x\<bar> < 10 ^ int_max_str_digits" by simp
  with checkpoint_roundtrip [of "[0, 7, 12]" example_files] b show ?thesis by simp
qed

text \<open>
  Claim C3 as stated fails on the set that holds the one non-negative integer
  \<open>10 ^ 4300\<close>, of 4301 digits: saving raises and leaves an empty file, and loading
  gives the empty set.
\<close>

theorem checkpoint_roundtrip_counterexample:
  "(0 :: int) \<le> 10 ^ int_max_str_digits
   \<and> save_checkpoint [10 ^ int_max_str_digits] example_files
       = Inl (ValueError, example_files\<lparr>checkpoint_file := Some []\<rparr>)
   \<and> load_checkpoint (example_files\<lparr>checkpoint_file := Some []\<rparr>) = Inr {}
   \<and> {} \<noteq> {10 ^ int_max_str_digits :: int}"
proof -
  have "save_checkpoint [10 ^ int_max_str_digits] example_files
       = Inl (ValueError, example_files\<lparr>checkpoint_file := Some []\<rparr>)"
    by (rule save_checkpoint_raises [of "10 ^ int_max_str_digits"]) simp_all
  then show ?thesis by (simp add: load_empty_file)
qed

text \<open>
  Claim C10. A checkpoint file that exists and is empty or holds only whitespace loads
  as the empty set: no exception is raised.
\<close>

theorem load_checkpoint_blank:
  "checkpoint_file fs = Some text \<Longrightarrow> \<forall>c \<in> set text. is_space c \<Longrightarrow> load_checkpoint fs = Inr {}"
  by (simp add: load_checkpoint_def all_space_strip)

theorem load_checkpoint_blank_witness:
  "checkpoint_file (example_files\<lparr>checkpoint_file := Some [CHR '' '', newline]\<rparr>) = Some [CHR '' '', newline]
   \<and> is_space (CHR '' '') \<and> is_space newline
   \<and> load_checkpoint (example_files\<lparr>checkpoint_file := Some [CHR '' '', newline]\<rparr>) = Inr {}"
proof -
  have f: "checkpoint_file (example_files\<lparr>checkpoint_file := Some [CHR '' '', newline]\<rparr>)
             = Some [CHR '' '', newline]"
    by simp
  have w: "\<forall>c \<in> set [CHR '' '', newline]. is_space c"
    by (simp add: is_space_def newline_def)
  show ?thesis using f w load_checkpoint_blank [OF f w] by simp
qed

subsection \<open>Escaping of line breaks\<close>

lemma replace_Nil: "old \<noteq> [] \<Longrightarrow> replace old new [] = []"
  by (subst replace.simps) simp

lemma replace_single_Cons:
  "replace [a] new (c # cs) =
     (if c = a then new @ replace [a] new cs else c # replace [a] new cs)"
  by (subst replace.simps) simp

lemma replace_pair_Cons:
  "replace [a, b] new (c # cs) =
     (if c = a \<and> take 1 cs = [b] then new @ replace [a, b] new (drop 1 cs)
      else c # replace [a, b] new cs)"
  by (subst replace.simps) (cases cs; auto)

lemma newline_neq: "newline \<noteq> backslash" "newline \<noteq> CHR ''n''" "backslash \<noteq> CHR ''n''"
  by (simp_all add: newline_def backslash_def)

lemma escape_no_newline: "newline \<notin> set (replace [newline] [backslash, CHR ''n''] t)"
  using newline_neq by (induction t) (auto simp: replace_Nil replace_single_Cons)

lemma escape_head:
  "take 1 (replace [newline] [backslash, CHR ''n''] cs) = [CHR ''n''] \<Longrightarrow> take 1 cs = [CHR ''n'']"
  using newline_neq by (cases cs) (auto simp: replace_Nil replace_single_Cons split: if_splits)

lemma unescape_escape:
  "\<not> occurs [backslash, CHR ''n''] t \<Longrightarrow>
     replace [backslash, CHR ''n''] [newline] (replace [newline] [backslash, CHR ''n''] t) = t"
proof (induction t)
  case Nil
  then show ?case by (simp add: replace_Nil)
next
  case (Cons c cs)
  from Cons.prems have no: "\<not> occurs [backslash, CHR ''n''] cs"
    and here: "\<not> (c = backslash \<and> take 1 cs = [CHR ''n''])"
    by (cases cs; auto)+
  from Cons.IH no
  have ih: "replace [backslash, CHR ''n''] [newline] (replace [newline] [backslash, CHR ''n''] cs) = cs"
    by simp
  show ?case
  proof (cases "c = newline")
    case True
    then show ?thesis
      by (simp add: replace_single_Cons replace_pair_Cons ih)
  next
    case False
    have "\<not> (c = backslash \<and> take 1 (replace [newline] [backslash, CHR ''n''] cs) = [CHR ''n''])"
      using here escape_head by blast
    with False show ?thesis
      by (auto simp: replace_single_Cons replace_pair_Cons ih)
  qed
qed

lemma unescape_length: "length (replace [a, b] [c] s) \<le> length s"
proof (induction s rule: length_induct)
  case (1 s)
  show ?case
  proof (cases s)
    case Nil
    then show ?thesis by (simp add: replace_Nil)
  next
    case (Cons x xs)
    have a: "length (replace [a, b] [c] xs) \<le> length xs"
      using 1 Cons by simp
    have "length (drop 1 xs) < length s"
      using Cons by simp
    with 1 have b: "length (replace [a, b] [c] (drop 1 xs)) \<le> length (drop 1 xs)"
      by blast
    from a b Cons show ?thesis
      by (auto simp: replace_pair_Cons)
  qed
qed

lemma unescape_shrinks: "occurs [a, b] s \<Longrightarrow> length (replace [a, b] [c] s) < length s"
proof (induction s)
  case Nil
  then show ?case by simp
next
  case (Cons x xs)
  show ?case
  proof (cases "x = a \<and> take 1 xs = [b]")
    case True
    have "length (replace [a, b] [c] (drop 1 xs)) \<le> length (drop 1 xs)"
      by (rule unescape_length)
    moreover from True have "length (drop 1 xs) < length xs"
      by (cases xs) auto
    ultimately have "length (replace [a, b] [c] (drop 1 xs)) < length xs"
      by linarith
    with True show ?thesis
      by (simp add: replace_pair_Cons)
  next
    case False
    with Cons.prems have "occurs [a, b] xs"
      by (cases xs) auto
    with Cons.IH False show ?thesis
      by (auto simp: replace_pair_Cons)
  qed
qed

lemma unescape_clean:
  "replace [backslash, CHR ''n''] [newline] (replace [newline] [backslash, CHR ''n''] t)
     = replace [backslash, CHR ''n''] [newline] t"
proof (induction t rule: length_induct)
  case (1 t)
  show ?case
  proof (cases t)
    case Nil
    then show ?thesis by (simp add: replace_Nil)
  next
    case (Cons x xs)
    have a: "replace [backslash, CHR ''n''] [newline] (replace [newline] [backslash, CHR ''n''] xs)
               = replace [backslash, CHR ''n''] [newline] xs"
      using 1 Cons by simp
    have "length (drop 1 xs) < length t" using Cons by simp
    with 1 have b: "replace [backslash, CHR ''n''] [newline]
                      (replace [newline] [backslash, CHR ''n''] (drop 1 xs))
               = replace [backslash, CHR ''n''] [newline] (drop 1 xs)"
      by blast
    consider (nl) "x = newline"
      | (pair) "x = backslash" "take 1 xs = [CHR ''n'']"
      | (other) "x \<noteq> newline" "\<not> (x = backslash \<and> take 1 xs = [CHR ''n''])"
      by blast
    then show ?thesis
    proof cases
      case nl
      with Cons a newline_neq show ?thesis
        by (simp add: replace_single_Cons replace_pair_Cons)
    next
      case pair
      then obtain xs' where xs: "xs = CHR ''n'' # xs'"
        by (cases xs) auto
      with Cons pair b newline_neq show ?thesis
        by (simp add: replace_single_Cons replace_pair_Cons)
    next
      case other
      then have "\<not> (x = backslash \<and> take 1 (replace [newline] [backslash, CHR ''n''] xs) = [CHR ''n''])"
        using escape_head by blast
      with Cons other a show ?thesis
        by (auto simp: replace_single_Cons replace_pair_Cons)
    qed
  qed
qed

lemma reversal_iff:
  "replace [backslash, CHR ''n''] [newline] (replace [newline] [backslash, CHR ''n''] t) = t
     \<longleftrightarrow> \<not> occurs [backslash, CHR ''n''] t"
proof
  assume eq: "replace [backslash, CHR ''n''] [newline] (replace [newline] [backslash, CHR ''n''] t) = t"
  show "\<not> occurs [backslash, CHR ''n''] t"
  proof
    assume "occurs [backslash, CHR ''n''] t"
    then have "length (replace [backslash, CHR ''n''] [newline] t) < length t"
      by (rule unescape_shrinks)
    with eq show False by (simp add: unescape_clean)
  qed
next
  assume "\<not> occurs [backslash, CHR ''n''] t"
  then show "replace [backslash, CHR ''n''] [newline] (replace [newline] [backslash, CHR ''n''] t) = t"
    by (rule unescape_escape)
qed

text \<open>
  Claim C5, as amended. The escaped text holds no line break. Replacing every
  backslash-n of the escaped text by a line break gives back the original text if and
  only if the original text holds no backslash followed by the letter n.
\<close>

theorem escaping_law:
  "\<exists>e. clean_value (JStr t) = JStr e \<and> newline \<notin> set e
      \<and> (replace [backslash, CHR ''n''] [newline] e = t \<longleftrightarrow> \<not> occurs [backslash, CHR ''n''] t)"
  by (simp add: clean_value_def escape_no_newline reversal_iff)

theorem escaping_law_witness:
  "\<not> occurs [backslash, CHR ''n''] (''a'' @ [newline] @ ''b'') \<and>
     (\<exists>e. clean_value (JStr (''a'' @ [newline] @ ''b'')) = JStr e \<and> newline \<notin> set e
          \<and> replace [backslash, CHR ''n''] [newline] e = ''a'' @ [newline] @ ''b'')"
proof -
  have h: "\<not> occurs [backslash, CHR ''n''] (''a'' @ [newline] @ ''b'')"
    by (simp add: newline_def backslash_def)
  show ?thesis using h escaping_law [of "''a'' @ [newline] @ ''b''"] by blast
qed

text \<open>
  Claim C5 as stated fails on a text that holds a backslash-n of its own before a line
  break: both come back as line breaks.
\<close>

theorem escaping_reversal_counterexample:
  "newline \<in> set [backslash, CHR ''n'', newline] \<and>
   clean_value (JStr [backslash, CHR ''n'', newline])
     = JStr [backslash, CHR ''n'', backslash, CHR ''n''] \<and>
   replace [backslash, CHR ''n''] [newline] [backslash, CHR ''n'', backslash, CHR ''n'']
     = [newline, newline] \<and>
   [newline, newline] \<noteq> [backslash, CHR ''n'', newline]"
  by (simp add: clean_value_def replace_single_Cons replace_pair_Cons replace_Nil newline_def backslash_def)


subsection \<open>Response Parser\<close>

lemma re_search_braces_match:
  assumes "CHR ''{'' \<notin> set pre" and "CHR ''}'' \<notin> set post"
  shows "re_search_braces (pre @ CHR ''{'' # mid @ CHR ''}'' # post)
           = Some (CHR ''{'' # mid @ [CHR ''}''])"
proof -
  have d: "dropWhile (\<lambda>c. c \<noteq> CHR ''{'') (pre @ CHR ''{'' # mid @ CHR ''}'' # post)
             = CHR ''{'' # mid @ CHR ''}'' # post"
    using assms(1) by (induction pre) auto
  have r: "dropWhile (\<lambda>c. c \<noteq> CHR ''}'') (rev post @ CHR ''}'' # rev mid @ [CHR ''{''])
             = CHR ''}'' # rev mid @ [CHR ''{'']"
    using assms(2) by (induction post rule: rev_induct) auto
  show ?thesis
    unfolding re_search_braces_def d by (simp add: r)
qed

lemma re_search_braces_none:
  assumes "\<And>pre mid post. response \<noteq> pre @ CHR ''{'' # mid @ CHR ''}'' # post"
  shows "re_search_braces response = None"
proof (rule ccontr)
  assume "re_search_braces response \<noteq> None"
  then have m: "CHR ''}'' \<in> set (dropWhile (\<lambda>c. c \<noteq> CHR ''{'') response)"
    by (auto simp: re_search_braces_def Let_def split: if_splits)
  then obtain rest where d: "dropWhile (\<lambda>c. c \<noteq> CHR ''{'') response = CHR ''{'' # rest"
    using hd_dropWhile [of "\<lambda>c. c \<noteq> CHR ''{''" response]
    by (cases "dropWhile (\<lambda>c. c \<noteq> CHR ''{'') response") auto
  with m have "CHR ''}'' \<in> set rest" by simp
  then obtain mid post where "rest = mid @ CHR ''}'' # post"
    by (auto dest: split_list)
  with d have "response = takeWhile (\<lambda>c. c \<noteq> CHR ''{'') response @ CHR ''{'' # mid @ CHR ''}'' # post"
    using takeWhile_dropWhile_id [of "\<lambda>c. c \<noteq> CHR ''{''" response] by simp
  with assms show False by blast
qed

text \<open>
  Claim C8, as amended. When the text holds an opening brace with a closing brace after
  it, the parser decodes the part from the first opening brace to the last closing brace
  and returns the decoded mapping, or \<open>None\<close> when the decoder raises
  \<open>JSONDecodeError\<close>; an exception of another class raised by the decoder is not
  handled and leaves \<open>extract_json\<close>. When the text holds no such part, the parser
  returns \<open>None\<close>.
\<close>

theorem extract_json_outcomes:
  "(CHR ''{'' \<notin> set pre \<and> CHR ''}'' \<notin> set post \<longrightarrow>
      extract_json env (pre @ CHR ''{'' # mid @ CHR ''}'' # post) =
        (case json_loads env (CHR ''{'' # mid @ [CHR ''}'']) of
           Inr d \<Rightarrow> Inr (Some d)
         | Inl e \<Rightarrow> if e = JSONDecodeError then Inr None else Inl e))
   \<and> ((\<forall>pre mid post. response \<noteq> pre @ CHR ''{'' # mid @ CHR ''}'' # post) \<longrightarrow>
        extract_json env response = Inr None)"
  by (simp add: extract_json_def re_search_braces_match re_search_braces_none)

lemma strip_draft_reply: "strip draft_reply = draft_reply"
  by (simp add: strip_def draft_reply_def dq_def is_space_def)

lemma strip_final_reply: "strip final_reply = final_reply"
  by (simp add: strip_def final_reply_def dq_def is_space_def)

lemma search_draft_reply: "re_search_braces draft_reply = Some draft_reply"
  by (simp add: re_search_braces_def draft_reply_def dq_def)

lemma search_final_reply: "re_search_braces final_reply = Some final_reply"
  by (simp add: re_search_braces_def final_reply_def dq_def)

lemma draft_neq_final: "final_reply \<noteq> draft_reply"
  by (simp add: final_reply_def draft_reply_def dq_def)

theorem extract_json_outcomes_witness:
  "CHR ''{'' \<notin> set ''Here it is: '' \<and> CHR ''}'' \<notin> set '' Done.''
   \<and> extract_json example_env (''Here it is: '' @ draft_reply @ '' Done.'')
       = Inr (Some [(''inner_monologue'', JStr ''draft text'')])
   \<and> json_loads example_env ''{oops}'' = Inl JSONDecodeError
   \<and> extract_json example_env ''{oops}'' = Inr None
   \<and> (\<forall>pre mid post. ''not json at all'' \<noteq> pre @ CHR ''{'' # mid @ CHR ''}'' # post)
   \<and> extract_json example_env ''not json at all'' = Inr None"
proof -
  let ?mid = "dq @ ''inner_monologue'' @ dq @ '':'' @ dq @ ''draft text'' @ dq"
  have a: "CHR ''{'' \<notin> set ''Here it is: '' \<and> CHR ''}'' \<notin> set '' Done.''" by simp
  have b: "\<forall>pre mid post. ''not json at all'' \<noteq> pre @ CHR ''{'' # mid @ CHR ''}'' # post"
  proof (intro allI notI)
    fix pre mid post
    assume "''not json at all'' = pre @ CHR ''{'' # mid @ CHR ''}'' # post"
    then have "CHR ''{'' \<in> set ''not json at all''"
      by (metis in_set_conv_decomp)
    then show False by simp
  qed
  have l: "json_loads example_env (CHR ''{'' # ?mid @ [CHR ''}''])
             = Inr [(''inner_monologue'', JStr ''draft text'')]"
    by (simp add: example_env_def example_loads_def draft_reply_def)
  have o: "json_loads example_env ''{oops}'' = Inl JSONDecodeError"
    by (simp add: example_env_def example_loads_def draft_reply_def final_reply_def)
  from extract_json_outcomes [of "''Here it is: ''" "'' Done.''" example_env ?mid "''not json at all''"]
    extract_json_outcomes [of "[]" "[]" example_env "''oops''" "''not json at all''"] a b l o
  show ?thesis by (simp add: draft_reply_def)
qed

lemma max_nesting_nested:
  "depth + Suc n \<le> max_nesting depth
     (concat (replicate (Suc n) (''{'' @ dq @ ''a'' @ dq @ '':'')) @ rest)"
proof (induction n arbitrary: depth)
  case 0
  then show ?case by simp
next
  case (Suc n)
  have "Suc depth + Suc n \<le> max_nesting (Suc depth)
     (concat (replicate (Suc n) (''{'' @ dq @ ''a'' @ dq @ '':'')) @ rest)"
    by (rule Suc.IH)
  then show ?case
    by (simp add: dq_def)
qed

lemma nested_reply_match:
  "re_search_braces (nested_reply (Suc n)) = Some (nested_reply (Suc n))"
proof -
  let ?mid = "dq @ ''a'' @ dq @ '':'' @ concat (replicate n (''{'' @ dq @ ''a'' @ dq @ '':''))
                @ ''1'' @ replicate n CHR ''}''"
  have n: "nested_reply (Suc n) = [] @ CHR ''{'' # ?mid @ CHR ''}'' # []"
    by (simp add: nested_reply_def replicate_append_same)
  have "re_search_braces ([] @ CHR ''{'' # ?mid @ CHR ''}'' # []) = Some (CHR ''{'' # ?mid @ [CHR ''}''])"
    by (rule re_search_braces_match) simp_all
  with n show ?thesis by simp
qed

text \<open>
  Claim C8 as stated fails: on a reply of 1001 nested objects a decoder with the
  recursion limit 1000 raises \<open>RecursionError\<close>, and \<open>extract_json\<close> raises it too.
\<close>

theorem extract_json_raises_counterexample:
  "extract_json (example_env\<lparr>json_loads := limited_loads 1000\<rparr>) (nested_reply 1001)
     = Inl RecursionError"
proof -
  have d: "1000 < max_nesting 0 (nested_reply (Suc 1000))"
    using max_nesting_nested [of 0 1000 "''1'' @ replicate (Suc 1000) CHR ''}''"]
    unfolding nested_reply_def by linarith
  have m: "re_search_braces (nested_reply 1001) = Some (nested_reply 1001)"
    using nested_reply_match [of 1000] by simp
  have l: "limited_loads 1000 (nested_reply 1001) = Inl RecursionError"
    using d by (simp add: limited_loads_def)
  show ?thesis
    by (simp add: extract_json_def m l)
qed

subsection \<open>Task Unit\<close>

lemma process_sentence_one_outcome:
  "\<exists>calls. process_sentence env index sentence = (calls, Inr (index, None))
     \<or> (\<exists>text. process_sentence env index sentence =
           (calls, Inr (index, Some \<lparr>affirmation = sentence, monologue = clean_value text,
                                     model_name = MODEL_NAME\<rparr>)))"
  by (auto simp: process_sentence_def process_sentence_try_def Let_def
           split: sum.splits option.splits prod.splits)

lemma process_sentence_index:
  "\<exists>r. snd (process_sentence env index sentence) = Inr (index, r)"
  using process_sentence_one_outcome [of env index sentence] by auto

lemma example_task_fails: "snd (process_sentence example_env 1 s) = Inr (1, None)"
  by (simp add: process_sentence_def process_sentence_try_def send_messages_def example_env_def
      extract_json_def re_search_braces_def inner_monologue_def strip_def is_space_def)

text \<open>
  The scenario of the specification: a draft, then a refined text with a line break,
  give the generation record with the line break escaped.
\<close>

lemma example_scenario:
  "process_sentence example_env 0 ''I am enough'' =
     ([[\<lparr>role = ''user'', content = ''Affirmation: I am enough (reply as JSON)''\<rparr>],
       [\<lparr>role = ''user'', content = ''Affirmation: I am enough (reply as JSON)''\<rparr>,
        \<lparr>role = ''user'', content = ''Previous: draft text (revise, reply as JSON)''\<rparr>]],
      Inr (0, Some \<lparr>affirmation = ''I am enough'',
                    monologue = JStr (''final text'' @ [backslash, CHR ''n''] @ ''with a break''),
                    model_name = ''kimi-latest''\<rparr>))"
  by (simp add: process_sentence_def process_sentence_try_def send_messages_def
      example_env_def extract_json_def inner_monologue_def example_loads_def
      strip_draft_reply strip_final_reply search_draft_reply search_final_reply
      draft_neq_final format_value_def clean_value_def MODEL_NAME_def Let_def
      replace_single_Cons replace_Nil newline_def)

text \<open>
  Claim C7. When the reply to the draft request does not parse, or the decoded object
  has no field \<open>inner_monologue\<close>, the task fails and the draft request is the only
  request sent to the Model Client.
\<close>

theorem draft_failure_stops:
  assumes "send_messages env index
             [\<lparr>role = ''user'', content = prompt_head env @ sentence @ prompt_tail env\<rparr>]
           = Inr response"
    and "\<And>parsed. extract_json env response = Inr parsed \<Longrightarrow> inner_monologue parsed = None"
  shows "process_sentence env index sentence =
           ([[\<lparr>role = ''user'', content = prompt_head env @ sentence @ prompt_tail env\<rparr>]],
            Inr (index, None))"
  using assms
  by (auto simp: process_sentence_def process_sentence_try_def Let_def
           split: sum.splits option.splits prod.splits)

theorem draft_failure_stops_witness:
  "send_messages example_env 1
     [\<lparr>role = ''user'', content = prompt_head example_env @ ''I am enough'' @ prompt_tail example_env\<rparr>]
     = Inr ''not json at all''
   \<and> extract_json example_env ''not json at all'' = Inr None
   \<and> process_sentence example_env 1 ''I am enough'' =
       ([[\<lparr>role = ''user'',
            content = prompt_head example_env @ ''I am enough'' @ prompt_tail example_env\<rparr>]],
        Inr (1, None))"
proof -
  have s: "send_messages example_env 1
     [\<lparr>role = ''user'', content = prompt_head example_env @ ''I am enough'' @ prompt_tail example_env\<rparr>]
     = Inr ''not json at all''"
    by (simp add: send_messages_def example_env_def strip_def is_space_def)
  have x: "extract_json example_env ''not json at all'' = Inr None"
    by (simp add: extract_json_def re_search_braces_def)
  have p: "\<And>parsed. extract_json example_env ''not json at all'' = Inr parsed
             \<Longrightarrow> inner_monologue parsed = None"
    by (simp add: x inner_monologue_def)
  from draft_failure_stops [OF s p] s x show ?thesis by simp
qed

subsection \<open>Batch Orchestrator\<close>

lemma py_index_nth: "i < length xs \<Longrightarrow> py_index xs (int i) = Inr (xs ! i)"
  by (simp add: py_index_def)

lemma to_process_lookup:
  assumes "(idx, s) \<in> set (to_process completed sentences start_index)"
  shows "py_index sentences (idx - start_index) = Inr s \<and> idx \<notin> completed"
proof -
  from assms obtain i where i: "(i, s) \<in> set (enumerate 0 sentences)"
    and idx: "idx = int i + start_index" and nc: "idx \<notin> completed"
    by (auto simp: to_process_def)
  from i have "i < length sentences" "sentences ! i = s"
    by (auto simp: in_set_enumerate_eq)
  with idx nc show ?thesis by (simp add: py_index_nth)
qed

lemma to_process_no_checkpoint:
  "to_process {} sentences start_index =
     map (\<lambda>(i, s). (int i + start_index, s)) (enumerate 0 sentences)"
  by (simp add: to_process_def)

lemma to_process_all_done:
  assumes "\<And>i. i < length sentences \<Longrightarrow> int i + start_index \<in> completed"
  shows "to_process completed sentences start_index = []"
  using assms by (auto simp: to_process_def filter_empty_conv in_set_enumerate_eq)

text \<open>The finished tasks are the submitted tasks, each once.\<close>

lemma as_completed_mset: "mset (as_completed schedule tasks) = mset tasks"
proof (induction schedule tasks rule: as_completed.induct)
  case (3 p schedule t ts)
  let ?tasks = "t # ts"
  let ?k = "p mod length ?tasks"
  have k: "?k < length ?tasks" by simp
  have "mset ?tasks = mset (take ?k ?tasks @ ?tasks ! ?k # drop (Suc ?k) ?tasks)"
    using id_take_nth_drop [OF k] by simp
  with 3 show ?case by (simp add: Let_def del: take_Suc_Cons drop_Suc_Cons nth_Cons_Suc)
qed simp_all

text \<open>Every order of completion is the order of some schedule.\<close>

lemma as_completed_any_order:
  "mset order = mset tasks \<Longrightarrow> \<exists>schedule. as_completed schedule tasks = order"
proof (induction order arbitrary: tasks)
  case Nil
  then have "tasks = []" by simp
  then have "as_completed [] tasks = []" by simp
  then show ?case by blast
next
  case (Cons x order)
  from Cons.prems have "x \<in> set tasks"
    by (metis list.set_intros(1) mset_eq_setD)
  then obtain k where k: "k < length tasks" "tasks ! k = x"
    by (auto simp: in_set_conv_nth)
  let ?rest = "take k tasks @ drop (Suc k) tasks"
  have "mset tasks = mset ?rest + {#x#}"
    using id_take_nth_drop [OF k(1)] k(2)
    by (metis add_mset_add_single mset.simps(2) mset_append union_mset_add_mset_right)
  with Cons.prems have "mset order = mset ?rest" by simp
  from Cons.IH [OF this] obtain schedule where s: "as_completed schedule ?rest = order"
    by blast
  from k obtain t ts where t: "tasks = t # ts" by (cases tasks) auto
  have "as_completed (k # schedule) (t # ts) = x # order"
    using k s unfolding t by (simp add: Let_def del: take_Suc_Cons drop_Suc_Cons nth_Cons_Suc)
  with t show ?case by blast
qed

lemma as_completed_set: "set (as_completed schedule tasks) = set tasks"
  using as_completed_mset [of schedule tasks] by (metis set_mset_mset)

lemma collect_tasks:
  assumes "\<And>idx s. (idx, s) \<in> set tasks \<Longrightarrow> py_index sentences (idx - start_index) = Inr s"
  shows "\<exists>acc'. collect sentences start_index
                  (map (\<lambda>(idx, s). snd (process_sentence env idx s)) tasks) acc = Inr acc'
               \<and> got_fail_data acc' =
                   got_fail_data acc @ map (\<lambda>(idx, s). Failure s) (filter (failed env) tasks)
               \<and> got_completed acc' \<subseteq> got_completed acc \<union> fst ` set tasks"
  using assms
proof (induction tasks arbitrary: acc)
  case Nil
  then show ?case by simp
next
  case (Cons task tasks)
  obtain idx s where task: "task = (idx, s)" by (cases task)
  obtain r where r: "snd (process_sentence env idx s) = Inr (idx, r)"
    using process_sentence_index by blast
  have look: "py_index sentences (idx - start_index) = Inr s"
    using Cons.prems task by simp
  have rest: "\<And>idx s. (idx, s) \<in> set tasks \<Longrightarrow> py_index sentences (idx - start_index) = Inr s"
    using Cons.prems by simp
  show ?case
  proof (cases r)
    case None
    from Cons.IH [OF rest, of "acc\<lparr>got_fail_data := got_fail_data acc @ [Failure s]\<rparr>"]
    show ?thesis using task r None look by (auto simp: failed_def)
  next
    case (Some g)
    from Cons.IH [OF rest, of "acc\<lparr>got_results := got_results acc @ [g],
                                  got_completed := insert idx (got_completed acc)\<rparr>"]
    show ?thesis using task r Some by (auto simp: failed_def)
  qed
qed

lemma snd_process_map:
  "snd \<circ> (\<lambda>(idx, sent). process_sentence env idx sent)
     = (\<lambda>(idx, s). snd (process_sentence env idx s))"
  by (auto simp: fun_eq_iff)

text \<open>
  A run whose checkpoint loads either returns, with the failure records of the failed
  tasks, or, without bypass, raises what saving the checkpoint raises.
\<close>

lemma orchestrator_run:
  assumes "(if ignore_checkpoint then Inr {} else load_checkpoint fs) = Inr completed"
  shows "(\<exists>run. process_sentences_concurrently env schedule fs sentences start_index ignore_checkpoint
                  = Inr run
          \<and> submitted run = to_process completed sentences start_index
          \<and> fail_data run =
              map (\<lambda>(idx, s). Failure s)
                (filter (failed env) (as_completed schedule (submitted run)))
          \<and> (ignore_checkpoint \<longrightarrow> files_after run = fs)
          \<and> (submitted run = [] \<longrightarrow> results run = [] \<and> client_calls run = [] \<and> files_after run = fs))
       \<or> (\<not> ignore_checkpoint
          \<and> (\<exists>indexes raised.
                indexes \<subseteq> completed \<union> fst ` set (to_process completed sentences start_index)
                \<and> save_checkpoint (set_order env indexes) fs = Inl raised
                \<and> process_sentences_concurrently env schedule fs sentences start_index
                      ignore_checkpoint = Inl raised))"
proof (cases "to_process completed sentences start_index = []")
  case True
  with assms show ?thesis
    by (simp add: process_sentences_concurrently_def)
next
  case False
  let ?tasks = "to_process completed sentences start_index"
  let ?acc = "\<lparr>got_results = [], got_fail_data = [], got_completed = completed\<rparr>"
  have look: "\<And>idx s. (idx, s) \<in> set (as_completed schedule ?tasks) \<Longrightarrow>
          py_index sentences (idx - start_index) = Inr s"
    using to_process_lookup by (simp add: as_completed_set)
  from collect_tasks [where tasks = "as_completed schedule ?tasks" and sentences = sentences
      and start_index = start_index and env = env and acc = ?acc, OF look]
  obtain acc' where c: "collect sentences start_index
                          (map (\<lambda>(idx, s). snd (process_sentence env idx s))
                             (as_completed schedule ?tasks)) ?acc = Inr acc'"
    and f: "got_fail_data acc' =
              map (\<lambda>(idx, s). Failure s) (filter (failed env) (as_completed schedule ?tasks))"
    and g0: "got_completed acc' \<subseteq> completed \<union> fst ` set (as_completed schedule ?tasks)"
    by auto
  have g: "got_completed acc' \<subseteq> completed \<union> fst ` set ?tasks"
    using g0 by (simp add: as_completed_set)
  show ?thesis
  proof (cases ignore_checkpoint)
    case True
    with assms False c f show ?thesis
      by (simp add: process_sentences_concurrently_def Let_def snd_process_map)
  next
    case nb: False
    show ?thesis
    proof (cases "save_checkpoint (set_order env (got_completed acc')) fs")
      case (Inl raised)
      with assms False c nb
      have "process_sentences_concurrently env schedule fs sentences start_index
              ignore_checkpoint = Inl raised"
        by (simp add: process_sentences_concurrently_def Let_def snd_process_map)
      with Inl nb g show ?thesis by blast
    next
      case (Inr fs')
      with assms False c f nb show ?thesis
        by (simp add: process_sentences_concurrently_def Let_def snd_process_map)
    qed
  qed
qed

lemma orchestrator_loaded:
  "process_sentences_concurrently env schedule fs sentences start_index ignore_checkpoint = Inr run
   \<Longrightarrow> \<exists>completed. (if ignore_checkpoint then Inr {} else load_checkpoint fs) = Inr completed"
  by (auto simp: process_sentences_concurrently_def split: sum.splits)

lemma orchestrator_raises:
  assumes "process_sentences_concurrently env schedule fs sentences start_index ignore_checkpoint
             = Inl (e, fs')"
  shows "\<not> ignore_checkpoint
         \<and> (load_checkpoint fs = Inl e \<and> fs' = fs
            \<or> (\<exists>indexes. save_checkpoint indexes fs = Inl (e, fs')))"
proof (cases "if ignore_checkpoint then Inr {} else load_checkpoint fs")
  case (Inl e')
  with assms show ?thesis
    by (auto simp: process_sentences_concurrently_def split: if_splits)
next
  case (Inr completed)
  from orchestrator_run [OF Inr, of env schedule sentences start_index] assms
  show ?thesis by auto
qed

text \<open>
  With indexes of no more digits than the interpreter converts, as they are when
  \<open>start_index\<close> is 0, saving the checkpoint does not raise: a run then raises only
  what loading the checkpoint raises. \<open>set_order\<close> is taken to list elements of the set.
\<close>

lemma run_raises_only_loading:
  assumes "process_sentences_concurrently env schedule fs sentences start_index ignore_checkpoint
             = Inl (e, fs')"
    and "\<And>indexes. set (set_order env indexes) \<subseteq> indexes"
    and "\<And>i. i < length sentences \<Longrightarrow> \<bar>int i + start_index\<bar> < 10 ^ int_max_str_digits"
  shows "\<not> ignore_checkpoint \<and> load_checkpoint fs = Inl e \<and> fs' = fs"
proof (cases "if ignore_checkpoint then Inr {} else load_checkpoint fs")
  case (Inl e')
  with assms(1) show ?thesis
    by (auto simp: process_sentences_concurrently_def split: if_splits)
next
  case (Inr completed)
  have small: "\<bar>x\<bar> < 10 ^ int_max_str_digits" if "x \<in> completed" for x
  proof (cases ignore_checkpoint)
    case True
    with Inr that show ?thesis by simp
  next
    case False
    with Inr that show ?thesis by (simp add: load_checkpoint_small)
  qed
  have new: "\<bar>x\<bar> < 10 ^ int_max_str_digits"
    if "x \<in> fst ` set (to_process completed sentences start_index)" for x
    using that assms(3) by (auto simp: to_process_def in_set_enumerate_eq)
  from orchestrator_run [OF Inr, of env schedule sentences start_index] assms(1)
  obtain indexes where i: "indexes \<subseteq> completed \<union> fst ` set (to_process completed sentences start_index)"
    and r: "save_checkpoint (set_order env indexes) fs = Inl (e, fs')"
    by auto
  have "\<And>x. x \<in> set (set_order env indexes) \<Longrightarrow> \<bar>x\<bar> < 10 ^ int_max_str_digits"
    using assms(2) [of indexes] i small new by blast
  from save_checkpoint_returns [OF this, of "set_order env indexes" fs] r
  show ?thesis by auto
qed

lemma example_task_succeeds:
  "task \<noteq> 1 \<Longrightarrow> \<not> failed example_env (task, s)"
  by (simp add: failed_def process_sentence_def process_sentence_try_def send_messages_def
      example_env_def extract_json_def inner_monologue_def example_loads_def
      strip_draft_reply strip_final_reply search_draft_reply search_final_reply
      draft_neq_final format_value_def)

text \<open>
  Claim C1. \<open>process_sentence\<close> returns its index with either \<open>None\<close> or a generation
  record, so exactly one of the two outcomes; an exception raised inside its \<open>try\<close>
  block, by the Model Client or by the code around the call, becomes the failure outcome
  with the same index. No exception of a task reaches the orchestrator: a run with
  bypass never raises, and a run without raises only what loading or saving the
  checkpoint raises; when the indexes have no more digits than the interpreter
  converts, only what loading raises.
\<close>

theorem task_unit_outcome:
  "(\<exists>calls. process_sentence env index sentence = (calls, Inr (index, None))
      \<or> (\<exists>text. process_sentence env index sentence =
            (calls, Inr (index, Some \<lparr>affirmation = sentence, monologue = clean_value text,
                                      model_name = MODEL_NAME\<rparr>))))
   \<and> (snd (process_sentence_try env index sentence) = Inl e \<longrightarrow>
        snd (process_sentence env index sentence) = Inr (index, None))
   \<and> (case process_sentences_concurrently env schedule fs sentences start_index ignore_checkpoint of
         Inr run \<Rightarrow> True
       | Inl (e', fs') \<Rightarrow>
           \<not> ignore_checkpoint
           \<and> (load_checkpoint fs = Inl e' \<and> fs' = fs
              \<or> (\<exists>indexes. save_checkpoint indexes fs = Inl (e', fs'))))
   \<and> ((\<forall>indexes. set (set_order env indexes) \<subseteq> indexes)
        \<and> (\<forall>i < length sentences. \<bar>int i + start_index\<bar> < 10 ^ int_max_str_digits) \<longrightarrow>
        (case process_sentences_concurrently env schedule fs sentences start_index
                ignore_checkpoint of
           Inr run \<Rightarrow> True
         | Inl (e', fs') \<Rightarrow> \<not> ignore_checkpoint \<and> load_checkpoint fs = Inl e' \<and> fs' = fs))"
proof (intro conjI)
  show "\<exists>calls. process_sentence env index sentence = (calls, Inr (index, None))
      \<or> (\<exists>text. process_sentence env index sentence =
            (calls, Inr (index, Some \<lparr>affirmation = sentence, monologue = clean_value text,
                                      model_name = MODEL_NAME\<rparr>)))"
    by (rule process_sentence_one_outcome)
  show "snd (process_sentence_try env index sentence) = Inl e \<longrightarrow>
        snd (process_sentence env index sentence) = Inr (index, None)"
    by (auto simp: process_sentence_def split: prod.splits sum.splits)
  show "case process_sentences_concurrently env schedule fs sentences start_index ignore_checkpoint of
         Inr run \<Rightarrow> True
       | Inl (e', fs') \<Rightarrow>
           \<not> ignore_checkpoint
           \<and> (load_checkpoint fs = Inl e' \<and> fs' = fs
              \<or> (\<exists>indexes. save_checkpoint indexes fs = Inl (e', fs')))"
    using orchestrator_raises [of env schedule fs sentences start_index ignore_checkpoint]
    by (auto split: sum.splits)
  show "(\<forall>indexes. set (set_order env indexes) \<subseteq> indexes)
        \<and> (\<forall>i < length sentences. \<bar>int i + start_index\<bar> < 10 ^ int_max_str_digits) \<longrightarrow>
        (case process_sentences_concurrently env schedule fs sentences start_index
                ignore_checkpoint of
           Inr run \<Rightarrow> True
         | Inl (e', fs') \<Rightarrow> \<not> ignore_checkpoint \<and> load_checkpoint fs = Inl e' \<and> fs' = fs)"
  proof (intro impI, elim conjE)
    assume o: "\<forall>indexes. set (set_order env indexes) \<subseteq> indexes"
      and b: "\<forall>i < length sentences. \<bar>int i + start_index\<bar> < 10 ^ int_max_str_digits"
    show "case process_sentences_concurrently env schedule fs sentences start_index
                ignore_checkpoint of
           Inr run \<Rightarrow> True
         | Inl (e', fs') \<Rightarrow> \<not> ignore_checkpoint \<and> load_checkpoint fs = Inl e' \<and> fs' = fs"
    proof (cases "process_sentences_concurrently env schedule fs sentences start_index
                    ignore_checkpoint")
      case (Inl raised)
      obtain e' fs' where r: "raised = (e', fs')" by (cases raised)
      from run_raises_only_loading [where env = env and schedule = schedule and fs = fs
          and sentences = sentences and start_index = start_index
          and ignore_checkpoint = ignore_checkpoint and e = e' and fs' = fs']
        Inl r o b
      show ?thesis by simp
    next
      case (Inr run)
      then show ?thesis by simp
    qed
  qed
qed

lemma sorted_list_within: "set (sorted_list_of_set indexes) \<subseteq> indexes"
  by (cases "finite indexes") simp_all

lemma load_malformed:
  "load_checkpoint (example_files\<lparr>checkpoint_file := Some ''0,x''\<rparr>) = Inl ValueError"
  by (simp add: load_checkpoint_def strip_def is_space_def py_int_def
      int_strip_def is_int_space_def parse_digits_def is_digit_def digits_value_def
      digit_val_def int_max_str_digits_def)

theorem task_unit_outcome_witness:
  "snd (process_sentence_try offline_env 0 ''I am enough'') = Inl (OtherException ''connection refused'')
   \<and> snd (process_sentence offline_env 0 ''I am enough'') = Inr (0, None)
   \<and> (\<forall>indexes. set (set_order offline_env indexes) \<subseteq> indexes)
   \<and> \<bar>int 0 + 0\<bar> < 10 ^ int_max_str_digits
   \<and> load_checkpoint (example_files\<lparr>checkpoint_file := Some ''0,x''\<rparr>) = Inl ValueError
   \<and> process_sentences_concurrently offline_env [] (example_files\<lparr>checkpoint_file := Some ''0,x''\<rparr>)
         [''I am enough''] 0 False
       = Inl (ValueError, example_files\<lparr>checkpoint_file := Some ''0,x''\<rparr>)"
proof -
  let ?fs = "example_files\<lparr>checkpoint_file := Some ''0,x''\<rparr>"
  have t: "snd (process_sentence_try offline_env 0 ''I am enough'')
             = Inl (OtherException ''connection refused'')"
    by (simp add: process_sentence_try_def send_messages_def offline_env_def example_env_def)
  have o: "\<forall>indexes. set (set_order offline_env indexes) \<subseteq> indexes"
    by (simp add: offline_env_def example_env_def sorted_list_within)
  have b: "\<bar>int 0 + 0\<bar> < 10 ^ int_max_str_digits"
    using below_limit [of 0] by simp
  then have b': "\<forall>i < length [''I am enough'']. \<bar>int i + 0\<bar> < 10 ^ int_max_str_digits"
    by simp
  have r: "process_sentences_concurrently offline_env [] ?fs [''I am enough''] 0 False
             = Inl (ValueError, ?fs)"
    by (simp add: process_sentences_concurrently_def load_malformed)
  from task_unit_outcome [where env = offline_env and index = 0 and sentence = "''I am enough''"
      and e = "OtherException ''connection refused''" and schedule = "[]" and fs = ?fs
      and sentences = "[''I am enough'']" and start_index = 0 and ignore_checkpoint = False]
    t o b b' r load_malformed
  show ?thesis by simp
qed

text \<open>
  Claim C2. A run without bypass whose positions are all in the loaded checkpoint set
  submits no task, sends nothing to the Model Client and returns two empty lists; the
  files stay as they are.
\<close>

theorem checkpointed_run_dispatches_nothing:
  assumes "load_checkpoint fs = Inr completed"
    and "\<forall>i < length sentences. int i + start_index \<in> completed"
  shows "process_sentences_concurrently env schedule fs sentences start_index False =
           Inr \<lparr>results = [], fail_data = [], submitted = [], client_calls = [], files_after = fs\<rparr>"
  using assms by (simp add: process_sentences_concurrently_def to_process_all_done)

lemma load_example_files: "load_checkpoint example_files = Inr {0, 1, 2}"
  by (simp add: load_checkpoint_def example_files_def strip_def is_space_def py_int_def
      int_strip_def is_int_space_def parse_digits_def is_digit_def digits_value_def
      digit_val_def int_max_str_digits_def)

theorem checkpointed_run_dispatches_nothing_witness:
  "load_checkpoint example_files = Inr {0, 1, 2}
   \<and> process_sentences_concurrently example_env [1, 0] example_files [''a'', ''b'', ''c''] 0 False =
       Inr \<lparr>results = [], fail_data = [], submitted = [], client_calls = [],
            files_after = example_files\<rparr>"
proof -
  have l: "load_checkpoint example_files = Inr {0, 1, 2}" by (rule load_example_files)
  have a: "\<forall>i < length [''a'', ''b'', ''c'']. int i + 0 \<in> {0, 1, 2}"
    by (auto simp: less_Suc_eq)
  from checkpointed_run_dispatches_nothing [OF l a, of example_env "[1, 0]"] l
  show ?thesis by simp
qed

text \<open>
  Claim C4. A run with bypass never raises, leaves the checkpoint file (and the other
  files) as they were, and submits every sentence: the loaded set counts as empty.
\<close>

theorem bypass_leaves_checkpoint:
  "\<exists>run. process_sentences_concurrently env schedule fs sentences start_index True = Inr run
     \<and> files_after run = fs
     \<and> submitted run = map (\<lambda>(i, s). (int i + start_index, s)) (enumerate 0 sentences)"
  using orchestrator_run [of True fs "{}" env schedule sentences start_index]
  by (auto simp: to_process_no_checkpoint)

theorem bypass_leaves_checkpoint_witness:
  "\<exists>run. process_sentences_concurrently example_env [2, 0] example_files
            [''a'', ''b'', ''c''] 0 True = Inr run
     \<and> files_after run = example_files
     \<and> submitted run = [(0, ''a''), (1, ''b''), (2, ''c'')]"
  using bypass_leaves_checkpoint [of example_env "[2, 0]" example_files "[''a'', ''b'', ''c'']" 0]
  by simp

text \<open>
  Claim C9. The failure records of a run are those of the failed tasks, in the order
  in which the tasks finish, each with the sentence submitted under the index of the
  task, which is \<open>sentences[idx - start_index]\<close>. As a multiset they do not depend on
  the order in which the tasks finish.
\<close>

theorem failure_records_by_index:
  assumes "process_sentences_concurrently env schedule fs sentences start_index ignore_checkpoint
             = Inr run"
  shows "fail_data run =
           map (\<lambda>(idx, s). Failure s)
             (filter (failed env) (as_completed schedule (submitted run)))
       \<and> (\<forall>(idx, s) \<in> set (submitted run). py_index sentences (idx - start_index) = Inr s)
       \<and> mset (fail_data run) =
           mset (map (\<lambda>(idx, s). Failure s) (filter (failed env) (submitted run)))"
proof -
  from orchestrator_loaded [OF assms] obtain completed
    where c: "(if ignore_checkpoint then Inr {} else load_checkpoint fs) = Inr completed"
    by blast
  from orchestrator_run [OF c, of env schedule sentences start_index] assms
  have s: "submitted run = to_process completed sentences start_index"
    and f: "fail_data run =
           map (\<lambda>(idx, s). Failure s)
             (filter (failed env) (as_completed schedule (submitted run)))"
    by auto
  have l: "\<forall>(idx, s) \<in> set (submitted run). py_index sentences (idx - start_index) = Inr s"
    using s to_process_lookup by auto
  have "mset (filter (failed env) (as_completed schedule (submitted run)))
          = mset (filter (failed env) (submitted run))"
    by (simp add: as_completed_mset)
  then have m: "mset (fail_data run) =
           mset (map (\<lambda>(idx, s). Failure s) (filter (failed env) (submitted run)))"
    unfolding f by (metis mset_map)
  from f l m show ?thesis by blast
qed

theorem failure_records_by_index_witness:
  "\<exists>run. process_sentences_concurrently example_env [2, 0] example_files
            [''a'', ''b'', ''c''] 0 True = Inr run
     \<and> submitted run = [(0, ''a''), (1, ''b''), (2, ''c'')]
     \<and> as_completed [2, 0] (submitted run) = [(2, ''c''), (0, ''a''), (1, ''b'')]
     \<and> fail_data run = [Failure ''b'']
     \<and> py_index [''a'', ''b'', ''c''] (1 - 0) = Inr ''b''"
proof -
  have "(if True then Inr {} else load_checkpoint example_files) = Inr {}" by simp
  from orchestrator_run [OF this, of example_env "[2, 0]" "[''a'', ''b'', ''c'']" 0]
  obtain run where r: "process_sentences_concurrently example_env [2, 0] example_files
            [''a'', ''b'', ''c''] 0 True = Inr run"
    and s: "submitted run = [(0, ''a''), (1, ''b''), (2, ''c'')]"
    by (auto simp: to_process_def)
  have o: "as_completed [2, 0] (submitted run) = [(2, ''c''), (0, ''a''), (1, ''b'')]"
    by (simp add: s)
  have f: "failed example_env (1, ''b'')"
    by (simp add: failed_def example_task_fails)
  from failure_records_by_index [OF r] have "fail_data run = [Failure ''b'']"
    by (simp add: o f example_task_succeeds)
  with r s o show ?thesis
    by (simp add: py_index_def)
qed

subsection \<open>Result Sink\<close>



end
